theory Spec2Isabelle
  imports Main
begin

section \<open>Data model (types.ts)\<close>

text \<open>
  A JavaScript string is modelled as a HOL \<open>string\<close>: one \<open>char\<close> per code unit, for the
  code units below 256. The program compares characters only with the comma, the double
  quote, line feed and carriage return, trims white space, and lower-cases file names.

  A table row is \<^verbatim>\<open>any[]\<close>. Of a cell the program only observes whether it is a string,
  \<^verbatim>\<open>null\<close> or \<^verbatim>\<open>undefined\<close>, what \<^verbatim>\<open>String(cell)\<close> is, and whether the value is truthy.
  Every other value (a number, a boolean, a date) is therefore \<open>Other s b\<close>, with \<open>s\<close> its
  \<^verbatim>\<open>String\<close> image and \<open>b\<close> its truthiness.
\<close>

datatype cell = Str string | Null | Undefined | Other string bool

record TableData =
  headers :: "string list"
  rows :: "cell list list"

record Table =
  name :: string
  data :: TableData

text \<open>Every failure of the program is an \<^verbatim>\<open>Error\<close> object carrying a message.\<close>

datatype error = Error string

abbreviation DQUOTE :: char where "DQUOTE \<equiv> CHR 0x22"
abbreviation COMMA :: char where "COMMA \<equiv> CHR 0x2C"
abbreviation LF :: char where "LF \<equiv> CHR 0x0A"
abbreviation CR :: char where "CR \<equiv> CHR 0x0D"

section \<open>JavaScript primitives used by the program\<close>

text \<open>\<^verbatim>\<open>String(v)\<close>.\<close>

fun String_of :: "cell \<Rightarrow> string" where
  "String_of (Str s) = s"
| "String_of Null = ''null''"
| "String_of Undefined = ''undefined''"
| "String_of (Other s b) = s"

text \<open>Truthiness of a value: the empty string, \<^verbatim>\<open>null\<close> and \<^verbatim>\<open>undefined\<close> are falsy.\<close>

fun truthy :: "cell \<Rightarrow> bool" where
  "truthy (Str s) = (s \<noteq> [])"
| "truthy Null = False"
| "truthy Undefined = False"
| "truthy (Other s b) = b"

text \<open>
  The white space that \<^verbatim>\<open>String.prototype.trim\<close> strips, among the code units below 256:
  tab, line feed, vertical tab, form feed, carriage return, space and no-break space.
\<close>

definition isWhiteSpace :: "char \<Rightarrow> bool" where
  "isWhiteSpace c \<longleftrightarrow>
     c = CHR 0x09 \<or> c = LF \<or> c = CHR 0x0B \<or> c = CHR 0x0C \<or> c = CR \<or> c = CHR 0x20 \<or> c = CHR 0xA0"

definition trim :: "string \<Rightarrow> string" where
  "trim s = rev (dropWhile isWhiteSpace (rev (dropWhile isWhiteSpace s)))"

text \<open>\<^verbatim>\<open>xs.join(sep)\<close> on an array of strings.\<close>

fun join_js :: "string \<Rightarrow> string list \<Rightarrow> string" where
  "join_js sep [] = []"
| "join_js sep [x] = x"
| "join_js sep (x # y # ys) = x @ sep @ join_js sep (y # ys)"

text \<open>\<^verbatim>\<open>xs.indexOf(x)\<close>: the first index holding \<open>x\<close>, scanning from 0; \<open>-1\<close> when there is none.\<close>

fun indexOfFrom :: "nat \<Rightarrow> 'a list \<Rightarrow> 'a \<Rightarrow> int" where
  "indexOfFrom k [] x = - 1"
| "indexOfFrom k (y # ys) x = (if y = x then int k else indexOfFrom (Suc k) ys x)"

definition indexOf :: "'a list \<Rightarrow> 'a \<Rightarrow> int" where
  "indexOf xs x = indexOfFrom 0 xs x"

text \<open>\<^verbatim>\<open>row[i]\<close>: reading outside the array (also at index \<open>-1\<close>) gives \<^verbatim>\<open>undefined\<close>.\<close>

definition getCell :: "cell list \<Rightarrow> int \<Rightarrow> cell" where
  "getCell row i = (if 0 \<le> i \<and> nat i < length row then row ! nat i else Undefined)"

section \<open>The CSV parser (parseCsv)\<close>

text \<open>
  The scanning loop of \<^verbatim>\<open>parseCsv\<close>. The arguments are the character before the current one
  (\<^verbatim>\<open>csvText[i - 1]\<close>, \<open>None\<close> at \<open>i = 0\<close>), the variables \<^verbatim>\<open>rows\<close>, \<^verbatim>\<open>currentRow\<close>,
  \<^verbatim>\<open>currentField\<close>, \<^verbatim>\<open>inQuotedField\<close>, and the text from index \<open>i\<close> on. The result is the
  three buffers when the loop ends.
\<close>

fun scanCsv :: "char option \<Rightarrow> string list list \<Rightarrow> string list \<Rightarrow> string \<Rightarrow> bool \<Rightarrow> string
    \<Rightarrow> string list list \<times> string list \<times> string" where
  "scanCsv prev rws currentRow currentField inQuotedField [] = (rws, currentRow, currentField)"
| "scanCsv prev rws currentRow currentField inQuotedField (c # cs) =
    (if inQuotedField then
       (if c = DQUOTE then
          (if cs \<noteq> [] \<and> hd cs = DQUOTE
           then scanCsv (Some (hd cs)) rws currentRow (currentField @ [DQUOTE]) True (tl cs)
           else scanCsv (Some c) rws currentRow currentField False cs)
        else scanCsv (Some c) rws currentRow (currentField @ [c]) True cs)
     else if c = DQUOTE then scanCsv (Some c) rws currentRow currentField True cs
     else if c = COMMA then scanCsv (Some c) rws (currentRow @ [currentField]) [] False cs
     else if c = LF \<or> c = CR then
       (if prev \<noteq> None \<and> prev \<noteq> Some CR \<and> prev \<noteq> Some LF
        then scanCsv (Some c) (rws @ [currentRow @ [currentField]]) [] [] False cs
        else scanCsv (Some c) rws currentRow currentField False cs)
     else scanCsv (Some c) rws currentRow (currentField @ [c]) False cs)"

text \<open>The flush after the loop: the last field and row, when there is one.\<close>

definition flushLast :: "string list list \<times> string list \<times> string \<Rightarrow> string list list" where
  "flushLast st = (case st of (rws, currentRow, currentField) \<Rightarrow>
     if currentField \<noteq> [] \<or> length currentRow > 0
     then rws @ [currentRow @ [currentField]] else rws)"

text \<open>The filter predicate \<^verbatim>\<open>row.length > 1 || (row.length === 1 && row[0].trim() !== '')\<close>.\<close>

definition nonEmptyRow :: "string list \<Rightarrow> bool" where
  "nonEmptyRow row \<longleftrightarrow> length row > 1 \<or> (length row = 1 \<and> trim (row ! 0) \<noteq> [])"

text \<open>The loop \<^verbatim>\<open>while (row.length < headers.length) row.push('')\<close>.\<close>

function padRow :: "nat \<Rightarrow> string list \<Rightarrow> string list" where
  "padRow n row = (if length row < n then padRow n (row @ [[]]) else row)"
  by pat_completeness auto
termination
  by (relation "measure (\<lambda>(n, row). n - length row)") auto

definition sanitizeRow :: "nat \<Rightarrow> string list \<Rightarrow> string list" where
  "sanitizeRow n row = (if length row > n then take n row else padRow n row)"

definition parseCsv :: "string \<Rightarrow> error + TableData" where
  "parseCsv csvText =
    (let rws = flushLast (scanCsv None [] [] [] False csvText);
         nonEmptyRows = filter nonEmptyRow rws
     in if length nonEmptyRows = 0 then Inr \<lparr>headers = [], rows = []\<rparr>
        else
          (let hdrs = hd nonEmptyRows;
               dataRows = tl nonEmptyRows;
               sanitizedRows = map (sanitizeRow (length hdrs)) dataRows
           in Inr \<lparr>headers = hdrs, rows = map (map Str) sanitizedRows\<rparr>))"

section \<open>The CSV serializer (generateCsv)\<close>

text \<open>\<^verbatim>\<open>field ?? ''\<close>.\<close>

fun nullish :: "cell \<Rightarrow> cell" where
  "nullish Null = Str []"
| "nullish Undefined = Str []"
| "nullish v = v"

text \<open>\<^verbatim>\<open>s.replace(/"/g, '""')\<close>.\<close>

definition doubleQuotes :: "string \<Rightarrow> string" where
  "doubleQuotes s = concat (map (\<lambda>c. if c = DQUOTE then [DQUOTE, DQUOTE] else [c]) s)"

definition needsQuoting :: "string \<Rightarrow> bool" where
  "needsQuoting s \<longleftrightarrow> list_ex (\<lambda>c. c = DQUOTE \<or> c = COMMA \<or> c = LF \<or> c = CR) s"

definition escapeField :: "cell \<Rightarrow> string" where
  "escapeField field =
    (let stringField = String_of (nullish field)
     in if needsQuoting stringField then [DQUOTE] @ doubleQuotes stringField @ [DQUOTE]
        else stringField)"

definition generateCsv :: "TableData \<Rightarrow> string" where
  "generateCsv d =
    (let headerRow = join_js [COMMA] (map (\<lambda>h. escapeField (Str h)) (headers d));
         dataRows = map (\<lambda>row. join_js [COMMA] (map escapeField row)) (rows d)
     in join_js [LF] (headerRow # dataRows))"

section \<open>The spreadsheet normalizer (parseExcel)\<close>

text \<open>
  A \<^verbatim>\<open>File\<close> as the program sees it: its name, the text \<^verbatim>\<open>file.text()\<close> resolves to, and
  what the xlsx library makes of its bytes: \<open>None\<close> when \<^verbatim>\<open>read\<close> throws, otherwise the
  sheets in the order of \<^verbatim>\<open>SheetNames\<close>, each as the array of rows that
  \<^verbatim>\<open>sheet_to_json(worksheet, {header: 1, defval: ''})\<close> returns. The library itself is not
  part of the program.
\<close>

record File =
  file_name :: string
  file_text :: string
  file_sheets :: "cell list list list option"

text \<open>Which content of the file a call has read.\<close>

datatype read_op = ReadText | ReadArrayBuffer

text \<open>The filter predicate: some cell is neither null nor undefined nor blank.\<close>

definition nonEmptyExcelRow :: "cell list \<Rightarrow> bool" where
  "nonEmptyExcelRow row \<longleftrightarrow>
     list_ex (\<lambda>cell. cell \<noteq> Null \<and> cell \<noteq> Undefined \<and> trim (String_of cell) \<noteq> []) row"

text \<open>\<^verbatim>\<open>String(h || '')\<close>.\<close>

definition headerString :: "cell \<Rightarrow> string" where
  "headerString h = String_of (if truthy h then h else Str [])"

text \<open>\<^verbatim>\<open>cell !== undefined && cell !== null ? String(cell) : ''\<close>.\<close>

definition cellString :: "cell \<Rightarrow> string" where
  "cellString cell = (if cell \<noteq> Undefined \<and> cell \<noteq> Null then String_of cell else [])"

text \<open>
  The body of \<^verbatim>\<open>dataRows.map\<close>: a new row of \<^verbatim>\<open>headers.length\<close> empty strings, then
  \<^verbatim>\<open>row.forEach\<close> writes the cells whose index is below \<^verbatim>\<open>headers.length\<close>.
\<close>

definition sanitizeExcelRow :: "nat \<Rightarrow> cell list \<Rightarrow> string list" where
  "sanitizeExcelRow n row =
     fold (\<lambda>(index, cell) newRow. if index < n then newRow[index := cellString cell] else newRow)
          (zip [0..<length row] row) (replicate n [])"

definition excelFailure :: error where
  "excelFailure = Error ''Failed to parse Excel file. Please ensure it is a valid .xlsx or .xls file.''"

definition parseExcel :: "File \<Rightarrow> read_op list \<times> (error + TableData)" where
  "parseExcel file =
    ([ReadArrayBuffer],
     (case file_sheets file of
        None \<Rightarrow> Inl excelFailure
      | Some sheets \<Rightarrow>
          if length sheets = 0 then Inr \<lparr>headers = [], rows = []\<rparr>
          else
            (let rws = hd sheets in
             if length rws = 0 then Inr \<lparr>headers = [], rows = []\<rparr>
             else
               (let nonEmptyRows = filter nonEmptyExcelRow rws in
                if length nonEmptyRows = 0 then Inr \<lparr>headers = [], rows = []\<rparr>
                else
                  (let hdrs = map headerString (hd nonEmptyRows);
                       dataRows = tl nonEmptyRows;
                       sanitizedRows = map (sanitizeExcelRow (length hdrs)) dataRows
                   in Inr \<lparr>headers = hdrs, rows = map (map Str) sanitizedRows\<rparr>)))))"

section \<open>The dispatcher (parseFile)\<close>

text \<open>\<^verbatim>\<open>toLowerCase\<close> on code units below 256: A to Z, and the upper-case letters of Latin-1.\<close>

definition toLowerChar :: "char \<Rightarrow> char" where
  "toLowerChar c =
    (let n = (of_char c :: nat)
     in if (65 \<le> n \<and> n \<le> 90) \<or> (192 \<le> n \<and> n \<le> 222 \<and> n \<noteq> 215) then char_of (n + 32) else c)"

definition toLowerCase :: "string \<Rightarrow> string" where
  "toLowerCase s = map toLowerChar s"

definition endsWith :: "string \<Rightarrow> string \<Rightarrow> bool" where
  "endsWith s suffix \<longleftrightarrow> length suffix \<le> length s \<and> drop (length s - length suffix) s = suffix"

definition unsupportedFormat :: error where
  "unsupportedFormat =
     Error ''Unsupported file format. Please upload a CSV (.csv) or Excel (.xlsx, .xls) file.''"

definition parseFile :: "File \<Rightarrow> read_op list \<times> (error + TableData)" where
  "parseFile file =
    (let nm = toLowerCase (file_name file)
     in if endsWith nm ''.csv'' then ([ReadText], parseCsv (file_text file))
        else if endsWith nm ''.xlsx'' \<or> endsWith nm ''.xls'' then parseExcel file
        else ([], Inl unsupportedFormat))"

section \<open>The join (handlePerformVlookup in App.tsx)\<close>

text \<open>The loop that fills \<^verbatim>\<open>lookupMap\<close>: every row of table B is stored under its key.\<close>

definition buildLookupMap :: "cell list list \<Rightarrow> int \<Rightarrow> (string \<rightharpoonup> cell list)" where
  "buildLookupMap rowsB matchColumnIndex =
     fold (\<lambda>row lookupMap. lookupMap(String_of (getCell row matchColumnIndex) \<mapsto> row))
          rowsB Map.empty"

text \<open>The body of the \<^verbatim>\<open>try\<close> block: the merged table computed from the two tables.\<close>

definition performVlookup :: "TableData \<Rightarrow> TableData \<Rightarrow> string \<Rightarrow> string \<Rightarrow> string \<Rightarrow> TableData" where
  "performVlookup tableA tableB lookupColumn matchColumn returnColumn =
    (let matchColumnIndex = indexOf (headers tableB) matchColumn;
         returnColumnIndex = indexOf (headers tableB) returnColumn;
         lookupMap = buildLookupMap (rows tableB) matchColumnIndex;
         newHeaders = headers tableA @ [returnColumn];
         lookupColumnIndex = indexOf (headers tableA) lookupColumn;
         newRows = map (\<lambda>rowA.
             let lookupValue = String_of (getCell rowA lookupColumnIndex);
                 matchedRowB = lookupMap lookupValue;
                 returnValue = (case matchedRowB of
                                  Some rowB \<Rightarrow> getCell rowB returnColumnIndex
                                | None \<Rightarrow> Str ''N/A'')
             in rowA @ [returnValue]) (rows tableA)
     in \<lparr>headers = newHeaders, rows = newRows\<rparr>)"

text \<open>The state of the component that the handler reads and writes.\<close>

record AppState =
  tableA :: "Table option"
  tableB :: "Table option"
  mergedData :: "TableData option"
  lookupColumn :: string
  matchColumn :: string
  returnColumn :: string
  isLoading :: bool
  error :: "string option"

definition notReadyMessage :: string where
  "notReadyMessage = ''Please ensure both tables are loaded and all columns are selected.''"

text \<open>
  The handler, with the callback it schedules run to its end. The guard only asks that
  both tables are loaded and that the three names are non-empty strings.
\<close>

definition handlePerformVlookup :: "AppState \<Rightarrow> AppState" where
  "handlePerformVlookup s =
    (if tableA s = None \<or> tableB s = None
        \<or> lookupColumn s = [] \<or> matchColumn s = [] \<or> returnColumn s = []
     then s\<lparr>error := Some notReadyMessage\<rparr>
     else
       (let s1 = s\<lparr>isLoading := True, error := None, mergedData := None\<rparr>;
            merged = performVlookup (data (the (tableA s))) (data (the (tableB s)))
                       (lookupColumn s) (matchColumn s) (returnColumn s)
        in s1\<lparr>mergedData := Some merged, isLoading := False\<rparr>))"

text \<open>
  The paste handler: it parses the text and then rejects a table without headers or without
  rows. The result is the table it stores, or the error it reports (the table slot is then
  cleared).
\<close>

definition emptyPasteFailure :: error where
  "emptyPasteFailure =
     Error ''Pasted data is empty or invalid. Please ensure it's valid CSV format.''"

definition handlePastedData :: "string \<Rightarrow> error + Table" where
  "handlePastedData text =
    (case parseCsv text of
       Inl e \<Rightarrow> Inl e
     | Inr d \<Rightarrow>
         if length (headers d) = 0 \<or> length (rows d) = 0 then Inl emptyPasteFailure
         else Inr \<lparr>name = ''Pasted Data'', data = d\<rparr>)"

text \<open>The invariant of a table: every row is as long as the header row.\<close>

definition rectangular :: "TableData \<Rightarrow> bool" where
  "rectangular t \<longleftrightarrow> list_all (\<lambda>row. length row = length (headers t)) (rows t)"

section \<open>Notions used in the statements\<close>

text \<open>A cell that is a string; a table whose cells all are; a string with a character that
  \<^verbatim>\<open>trim\<close> keeps.\<close>

definition isStr :: "cell \<Rightarrow> bool" where
  "isStr c = (case c of Str s \<Rightarrow> True | _ \<Rightarrow> False)"

definition allStrings :: "TableData \<Rightarrow> bool" where
  "allStrings t \<longleftrightarrow> list_all (list_all isStr) (rows t)"

definition nonBlank :: "string \<Rightarrow> bool" where
  "nonBlank s \<longleftrightarrow> trim s \<noteq> []"

text \<open>The line that \<^verbatim>\<open>generateCsv\<close> writes for a row of strings, and the condition under
  which the scanning loop ends a row at a line break.\<close>

definition csvLine :: "string list \<Rightarrow> string" where
  "csvLine fs = join_js [COMMA] (map (\<lambda>s. escapeField (Str s)) fs)"

definition breakAllowed :: "char option \<Rightarrow> bool" where
  "breakAllowed prev \<longleftrightarrow> prev \<noteq> None \<and> prev \<noteq> Some CR \<and> prev \<noteq> Some LF"

section \<open>Example tables and states\<close>

text \<open>The tables of the join example, a right table with a repeated key, two tables with
  repeated headers, and two states of the component.\<close>

definition exampleA :: TableData where
  "exampleA = \<lparr>headers = [''ID'', ''Name''],
      rows = [[Str ''1'', Str ''A''], [Str ''2'', Str ''B''], [Str ''3'', Str ''C'']]\<rparr>"

definition exampleB :: TableData where
  "exampleB = \<lparr>headers = [''ID'', ''Score''],
      rows = [[Str ''2'', Str ''90''], [Str ''1'', Str ''80'']]\<rparr>"

definition dupKeyB :: TableData where
  "dupKeyB = \<lparr>headers = [''ID'', ''Score''],
      rows = [[Str ''1'', Str ''10''], [Str ''1'', Str ''30''], [Str ''2'', Str ''20'']]\<rparr>"

definition dupHeadA :: TableData where
  "dupHeadA = \<lparr>headers = [''ID'', ''ID''], rows = [[Str ''1'', Str ''2'']]\<rparr>"

definition dupHeadB :: TableData where
  "dupHeadB = \<lparr>headers = [''K'', ''V'', ''K'', ''V''],
      rows = [[Str ''1'', Str ''x'', Str ''2'', Str ''y''], [Str ''2'', Str ''z'', Str ''1'', Str ''w'']]\<rparr>"

definition staleState :: AppState where
  "staleState = \<lparr>tableA = Some \<lparr>name = ''a.csv'', data = exampleA\<rparr>,
      tableB = Some \<lparr>name = ''b.csv'', data = exampleB\<rparr>,
      mergedData = None, lookupColumn = ''ID'', matchColumn = ''ID'', returnColumn = ''Missing'',
      isLoading = False, error = None\<rparr>"

definition unselectedState :: AppState where
  "unselectedState = staleState\<lparr>returnColumn := []\<rparr>"

text \<open>A ragged CSV text, the same sheet in a workbook, the table both give, a quoted field
  with escaped quotes, and two more files.\<close>

definition raggedCsv :: string where
  "raggedCsv = ''a,b,c,d'' @ [LF] @ ''1,2'' @ [LF] @ ''1,2,3,4,5,6''"

definition raggedTable :: TableData where
  "raggedTable = \<lparr>headers = [''a'', ''b'', ''c'', ''d''],
     rows = [[Str ''1'', Str ''2'', Str [], Str []], [Str ''1'', Str ''2'', Str ''3'', Str ''4'']]\<rparr>"

definition raggedFile :: File where
  "raggedFile = \<lparr>file_name = ''book.XLSX'', file_text = [],
     file_sheets = Some [[[Str ''a'', Str ''b'', Str ''c'', Str ''d''], [],
                          [Str ''1'', Other ''2'' True],
                          [Str ''1'', Str ''2'', Str ''3'', Str ''4'', Str ''5'', Null]]]\<rparr>"

definition quotedExample :: string where
  "quotedExample = [DQUOTE] @ ''He said '' @ [DQUOTE, DQUOTE] @ ''hi'' @ [DQUOTE, DQUOTE] @ [DQUOTE]"

definition quotedValue :: string where
  "quotedValue = ''He said '' @ [DQUOTE] @ ''hi'' @ [DQUOTE]"

definition upperCsvFile :: File where
  "upperCsvFile = \<lparr>file_name = ''Data.CSV'', file_text = ''a,b'' @ [LF] @ ''1,2'', file_sheets = None\<rparr>"

definition pdfFile :: File where
  "pdfFile = \<lparr>file_name = ''notes.pdf'', file_text = ''a,b'' @ [LF] @ ''1,2'', file_sheets = None\<rparr>"

text \<open>Tables for the round trip through the serializer and the parser.\<close>

definition oneColumn :: TableData where
  "oneColumn = \<lparr>headers = [''a''], rows = [[Str []]]\<rparr>"

definition quotedTable :: TableData where
  "quotedTable = \<lparr>headers = [''a'', ''b,c''],
     rows = [[Str ''x'', Str [CHR ''y'', DQUOTE, LF, CR]], [Str [], Str []], [Str [LF], Str [DQUOTE]]]\<rparr>"

definition namesTable :: TableData where
  "namesTable = \<lparr>headers = [''name''], rows = [[Str ''Ann, Lee''], [Str '' x '']]\<rparr>"

section \<open>Column resolution and the lookup index\<close>

lemma indexOfFrom_notin: "x \<notin> set xs \<Longrightarrow> indexOfFrom k xs x = - 1"
  by (induction xs arbitrary: k) auto

lemma indexOfFrom_first:
  "i < length xs \<Longrightarrow> xs ! i = x \<Longrightarrow> x \<notin> set (take i xs) \<Longrightarrow> indexOfFrom k xs x = int (k + i)"
proof (induction xs arbitrary: k i)
  case Nil
  then show ?case by simp
next
  case (Cons y ys)
  show ?case
  proof (cases i)
    case 0
    with Cons.prems show ?thesis by simp
  next
    case (Suc j)
    with Cons.prems have "j < length ys" "ys ! j = x" "x \<notin> set (take j ys)" "y \<noteq> x"
      by auto
    with Cons.IH [of j "Suc k"] Suc show ?thesis by simp
  qed
qed

lemma indexOf_first:
  "i < length xs \<Longrightarrow> xs ! i = x \<Longrightarrow> x \<notin> set (take i xs) \<Longrightarrow> indexOf xs x = int i"
  using indexOfFrom_first [of i xs x 0] by (simp add: indexOf_def)

lemma indexOf_notin: "x \<notin> set xs \<Longrightarrow> indexOf xs x = - 1"
  by (simp add: indexOf_def indexOfFrom_notin)

lemma first_occurrence:
  "x \<in> set xs \<Longrightarrow> \<exists>i. i < length xs \<and> xs ! i = x \<and> x \<notin> set (take i xs)"
proof (induction xs)
  case Nil
  then show ?case by simp
next
  case (Cons y ys)
  show ?case
  proof (cases "y = x")
    case True
    then have "0 < length (y # ys) \<and> (y # ys) ! 0 = x \<and> x \<notin> set (take 0 (y # ys))" by simp
    then show ?thesis by blast
  next
    case False
    with Cons obtain i where "i < length ys" "ys ! i = x" "x \<notin> set (take i ys)" by auto
    with False have "Suc i < length (y # ys) \<and> (y # ys) ! Suc i = x \<and> x \<notin> set (take (Suc i) (y # ys))"
      by simp
    then show ?thesis by blast
  qed
qed

lemma find_snoc:
  "find P (xs @ [x]) = (case find P xs of Some y \<Rightarrow> Some y | None \<Rightarrow> if P x then Some x else None)"
  by (induction xs) auto

lemma fold_upd_find:
  "fold (\<lambda>row m. m(key row \<mapsto> row)) rs m0 k =
     (case find (\<lambda>r. key r = k) (rev rs) of Some r \<Rightarrow> Some r | None \<Rightarrow> m0 k)"
proof (induction rs arbitrary: m0)
  case Nil
  then show ?case by simp
next
  case (Cons r rs)
  have "fold (\<lambda>row m. m(key row \<mapsto> row)) (r # rs) m0 k =
        fold (\<lambda>row m. m(key row \<mapsto> row)) rs (m0(key r \<mapsto> r)) k"
    by simp
  also have "\<dots> = (case find (\<lambda>r. key r = k) (rev rs) of Some r \<Rightarrow> Some r
                    | None \<Rightarrow> (m0(key r \<mapsto> r)) k)"
    by (rule Cons.IH)
  also have "\<dots> = (case find (\<lambda>r. key r = k) (rev (r # rs)) of Some r \<Rightarrow> Some r | None \<Rightarrow> m0 k)"
    by (simp add: find_snoc split: option.splits)
  finally show ?case .
qed

lemma buildLookupMap_find:
  "buildLookupMap rowsB mi k = find (\<lambda>r. String_of (getCell r mi) = k) (rev rowsB)"
  unfolding buildLookupMap_def
  by (simp add: fold_upd_find [where key = "\<lambda>r. String_of (getCell r mi)"] split: option.splits)

lemma performVlookup_find:
  "performVlookup A B l m r =
     \<lparr>headers = headers A @ [r],
      rows = map (\<lambda>rowA. rowA @
               [case find (\<lambda>rowB. String_of (getCell rowB (indexOf (headers B) m))
                                  = String_of (getCell rowA (indexOf (headers A) l)))
                          (rev (rows B)) of
                  Some rowB \<Rightarrow> getCell rowB (indexOf (headers B) r)
                | None \<Rightarrow> Str ''N/A'']) (rows A)\<rparr>"
  by (simp add: performVlookup_def Let_def buildLookupMap_find)

lemma find_app:
  "find P (xs @ ys) = (case find P xs of Some x \<Rightarrow> Some x | None \<Rightarrow> find P ys)"
  by (induction xs) auto

lemma find_rev_filter:
  "find P (rev xs) = (if filter P xs = [] then None else Some (last (filter P xs)))"
  by (induction xs) (auto simp: find_snoc split: option.splits)

section \<open>The join\<close>

text \<open>
  C1. When the three column names occur in the headers of their tables, the merged table has
  the headers of the left table followed by the return column, and one row for each left row,
  in the same order: the left row followed by one cell. With the right rows whose match cell
  has the same \<^verbatim>\<open>String\<close> image as the lookup cell of the left row, that cell is \<open>N/A\<close> when
  there are none, and otherwise the return cell of one of them. The theorem is about the body
  of the \<^verbatim>\<open>try\<close> block; the guard of the handler comes before it.
\<close>

theorem vlookup_left_join:
  assumes "l \<in> set (headers A)" "m \<in> set (headers B)" "r \<in> set (headers B)"
  shows "\<exists>li mi ri.
    li < length (headers A) \<and> headers A ! li = l \<and>
    mi < length (headers B) \<and> headers B ! mi = m \<and>
    ri < length (headers B) \<and> headers B ! ri = r \<and>
    headers (performVlookup A B l m r) = headers A @ [r] \<and>
    length (rows (performVlookup A B l m r)) = length (rows A) \<and>
    (\<forall>i < length (rows A).
       let rowA = rows A ! i;
           matches = filter (\<lambda>rowB. String_of (getCell rowB (int mi)) = String_of (getCell rowA (int li)))
                       (rows B)
       in if matches = [] then rows (performVlookup A B l m r) ! i = rowA @ [Str ''N/A'']
          else \<exists>rowB \<in> set matches. rows (performVlookup A B l m r) ! i = rowA @ [getCell rowB (int ri)])"
proof -
  from first_occurrence [OF assms(1)] obtain li where
    li: "li < length (headers A)" "headers A ! li = l" "l \<notin> set (take li (headers A))" by blast
  from first_occurrence [OF assms(2)] obtain mi where
    mi: "mi < length (headers B)" "headers B ! mi = m" "m \<notin> set (take mi (headers B))" by blast
  from first_occurrence [OF assms(3)] obtain ri where
    ri: "ri < length (headers B)" "headers B ! ri = r" "r \<notin> set (take ri (headers B))" by blast
  have il: "indexOf (headers A) l = int li" using li by (rule indexOf_first)
  have im: "indexOf (headers B) m = int mi" using mi by (rule indexOf_first)
  have ir: "indexOf (headers B) r = int ri" using ri by (rule indexOf_first)
  have rows_eq: "\<forall>i < length (rows A).
       let rowA = rows A ! i;
           matches = filter (\<lambda>rowB. String_of (getCell rowB (int mi)) = String_of (getCell rowA (int li)))
                       (rows B)
       in if matches = [] then rows (performVlookup A B l m r) ! i = rowA @ [Str ''N/A'']
          else \<exists>rowB \<in> set matches. rows (performVlookup A B l m r) ! i = rowA @ [getCell rowB (int ri)]"
  proof (intro allI impI)
    fix i assume i: "i < length (rows A)"
    let ?P = "\<lambda>rowB. String_of (getCell rowB (int mi)) = String_of (getCell (rows A ! i) (int li))"
    show "let rowA = rows A ! i;
           matches = filter (\<lambda>rowB. String_of (getCell rowB (int mi)) = String_of (getCell rowA (int li)))
                       (rows B)
       in if matches = [] then rows (performVlookup A B l m r) ! i = rowA @ [Str ''N/A'']
          else \<exists>rowB \<in> set matches. rows (performVlookup A B l m r) ! i = rowA @ [getCell rowB (int ri)]"
    proof (cases "filter ?P (rows B) = []")
      case True
      then show ?thesis
        using i by (simp add: performVlookup_find il im ir find_rev_filter Let_def cong: option.case_cong)
    next
      case False
      then have "last (filter ?P (rows B)) \<in> set (filter ?P (rows B))"
        by (rule last_in_set)
      moreover have "rows (performVlookup A B l m r) ! i =
          rows A ! i @ [getCell (last (filter ?P (rows B))) (int ri)]"
        using i False by (simp add: performVlookup_find il im ir find_rev_filter cong: option.case_cong)
      ultimately show ?thesis
        using False unfolding Let_def by (simp only: if_False) blast
    qed
  qed
  have "headers (performVlookup A B l m r) = headers A @ [r]"
    by (simp add: performVlookup_find)
  moreover have "length (rows (performVlookup A B l m r)) = length (rows A)"
    by (simp add: performVlookup_find)
  ultimately show ?thesis
    using li(1,2) mi(1,2) ri(1,2) rows_eq by blast
qed

theorem vlookup_left_join_witness:
  "''ID'' \<in> set (headers exampleA) \<and> ''ID'' \<in> set (headers exampleB) \<and> ''Score'' \<in> set (headers exampleB) \<and>
   performVlookup exampleA exampleB ''ID'' ''ID'' ''Score'' =
     \<lparr>headers = [''ID'', ''Name'', ''Score''],
      rows = [[Str ''1'', Str ''A'', Str ''80''], [Str ''2'', Str ''B'', Str ''90''],
              [Str ''3'', Str ''C'', Str ''N/A'']]\<rparr>"
proof -
  have h1: "''ID'' \<in> set (headers exampleA)" by (simp add: exampleA_def)
  have h2: "''ID'' \<in> set (headers exampleB)" by (simp add: exampleB_def)
  have h3: "''Score'' \<in> set (headers exampleB)" by (simp add: exampleB_def)
  show ?thesis
    using h1 h2 h3 vlookup_left_join [OF h1 h2 h3]
    by (simp add: performVlookup_find exampleA_def exampleB_def indexOf_def getCell_def)
qed

text \<open>
  C5. When several right rows have the same key, a left row with that key receives the return
  cell of the last of them: the row after which no right row has the key.
\<close>

theorem vlookup_last_duplicate_wins:
  assumes "rows B = pre @ rowB # post"
    and "\<forall>row \<in> set post. String_of (getCell row (indexOf (headers B) m))
                            \<noteq> String_of (getCell rowB (indexOf (headers B) m))"
    and "i < length (rows A)"
    and "String_of (getCell (rows A ! i) (indexOf (headers A) l))
           = String_of (getCell rowB (indexOf (headers B) m))"
  shows "rows (performVlookup A B l m r) ! i
           = rows A ! i @ [getCell rowB (indexOf (headers B) r)]"
proof -
  let ?P = "\<lambda>row. String_of (getCell row (indexOf (headers B) m))
                  = String_of (getCell (rows A ! i) (indexOf (headers A) l))"
  have "find ?P (rev post) = None"
    using assms(2,4) by (simp add: find_None_iff)
  then have "find ?P (rev (rows B)) = Some rowB"
    using assms(1,4) by (simp add: find_app)
  then show ?thesis
    using assms(3) by (simp add: performVlookup_find)
qed

theorem vlookup_last_duplicate_wins_witness:
  "rows dupKeyB = [[Str ''1'', Str ''10'']] @ [Str ''1'', Str ''30''] # [[Str ''2'', Str ''20'']] \<and>
   (0::nat) < length (rows exampleA) \<and>
   rows (performVlookup exampleA dupKeyB ''ID'' ''ID'' ''Score'') ! 0 = [Str ''1'', Str ''A'', Str ''30'']"
proof -
  have a: "rows dupKeyB = [[Str ''1'', Str ''10'']] @ [Str ''1'', Str ''30''] # [[Str ''2'', Str ''20'']]"
    by (simp add: dupKeyB_def)
  have b: "\<forall>row \<in> set [[Str ''2'', Str ''20'']]. String_of (getCell row (indexOf (headers dupKeyB) ''ID''))
                            \<noteq> String_of (getCell [Str ''1'', Str ''30''] (indexOf (headers dupKeyB) ''ID''))"
    by (simp add: dupKeyB_def indexOf_def getCell_def)
  have c: "(0::nat) < length (rows exampleA)"
    by (simp add: exampleA_def)
  have d: "String_of (getCell (rows exampleA ! 0) (indexOf (headers exampleA) ''ID''))
           = String_of (getCell [Str ''1'', Str ''30''] (indexOf (headers dupKeyB) ''ID''))"
    by (simp add: dupKeyB_def exampleA_def indexOf_def getCell_def)
  have "rows (performVlookup exampleA dupKeyB ''ID'' ''ID'' ''Score'') ! 0
          = rows exampleA ! 0 @ [getCell [Str ''1'', Str ''30''] (indexOf (headers dupKeyB) ''Score'')]"
    using a b c d by (rule vlookup_last_duplicate_wins)
  then have "rows (performVlookup exampleA dupKeyB ''ID'' ''ID'' ''Score'') ! 0 = [Str ''1'', Str ''A'', Str ''30'']"
    by (simp add: dupKeyB_def exampleA_def indexOf_def getCell_def)
  with a c show ?thesis by simp
qed

text \<open>
  C6. A column name is resolved to the first index at which it occurs in the headers, for
  each of the three columns: the merged table is the one computed from the cells at the first
  occurrences.
\<close>

theorem vlookup_first_header_index:
  assumes "li < length (headers A)" "headers A ! li = l" "l \<notin> set (take li (headers A))"
    and "mi < length (headers B)" "headers B ! mi = m" "m \<notin> set (take mi (headers B))"
    and "ri < length (headers B)" "headers B ! ri = r" "r \<notin> set (take ri (headers B))"
  shows "performVlookup A B l m r =
     \<lparr>headers = headers A @ [r],
      rows = map (\<lambda>rowA. rowA @
               [case find (\<lambda>rowB. String_of (getCell rowB (int mi)) = String_of (getCell rowA (int li)))
                          (rev (rows B)) of
                  Some rowB \<Rightarrow> getCell rowB (int ri)
                | None \<Rightarrow> Str ''N/A'']) (rows A)\<rparr>"
proof -
  have "indexOf (headers A) l = int li"
    using assms(1-3) by (rule indexOf_first)
  moreover have "indexOf (headers B) m = int mi"
    using assms(4-6) by (rule indexOf_first)
  moreover have "indexOf (headers B) r = int ri"
    using assms(7-9) by (rule indexOf_first)
  ultimately show ?thesis
    by (simp add: performVlookup_find cong: option.case_cong)
qed

theorem vlookup_first_header_index_witness:
  "(0::nat) < length (headers dupHeadA) \<and> headers dupHeadA ! 0 = ''ID'' \<and> ''ID'' \<notin> set (take 0 (headers dupHeadA)) \<and>
   (0::nat) < length (headers dupHeadB) \<and> headers dupHeadB ! 0 = ''K'' \<and> ''K'' \<notin> set (take 0 (headers dupHeadB)) \<and>
   (1::nat) < length (headers dupHeadB) \<and> headers dupHeadB ! 1 = ''V'' \<and> ''V'' \<notin> set (take 1 (headers dupHeadB)) \<and>
   performVlookup dupHeadA dupHeadB ''ID'' ''K'' ''V'' =
     \<lparr>headers = [''ID'', ''ID'', ''V''], rows = [[Str ''1'', Str ''2'', Str ''x'']]\<rparr>"
proof -
  have a: "(0::nat) < length (headers dupHeadA)" "headers dupHeadA ! 0 = ''ID''"
    "''ID'' \<notin> set (take 0 (headers dupHeadA))"
    by (simp_all add: dupHeadA_def)
  have b: "(0::nat) < length (headers dupHeadB)" "headers dupHeadB ! 0 = ''K''"
    "''K'' \<notin> set (take 0 (headers dupHeadB))"
    by (simp_all add: dupHeadB_def)
  have c: "(1::nat) < length (headers dupHeadB)" "headers dupHeadB ! 1 = ''V''"
    "''V'' \<notin> set (take 1 (headers dupHeadB))"
    by (simp_all add: dupHeadB_def)
  have "performVlookup dupHeadA dupHeadB ''ID'' ''K'' ''V'' =
     \<lparr>headers = [''ID'', ''ID'', ''V''], rows = [[Str ''1'', Str ''2'', Str ''x'']]\<rparr>"
    using vlookup_first_header_index [OF a b c]
    by (simp add: dupHeadA_def dupHeadB_def getCell_def)
  with a b c show ?thesis by simp
qed

text \<open>
  C2 as stated does not hold: with a return column that is not a header of the right table the
  handler reports no error and stores a merged table.
\<close>

theorem vlookup_absent_column_counterexample:
  "''Missing'' \<notin> set (headers exampleB) \<and>
   error (handlePerformVlookup staleState) = None \<and>
   mergedData (handlePerformVlookup staleState) =
     Some \<lparr>headers = [''ID'', ''Name'', ''Missing''],
           rows = [[Str ''1'', Str ''A'', Undefined], [Str ''2'', Str ''B'', Undefined],
                   [Str ''3'', Str ''C'', Str ''N/A'']]\<rparr>"
  by (simp add: handlePerformVlookup_def staleState_def performVlookup_find exampleA_def exampleB_def
      indexOf_def getCell_def)

lemma getCell_minus_one: "getCell row (- 1) = Undefined"
  by (simp add: getCell_def)

lemma absent_return_cells:
  assumes "r \<notin> set (headers B)" and "row \<in> set (rows (performVlookup A B l m r))"
  shows "last row = Undefined \<or> last row = Str ''N/A''"
proof -
  have "indexOf (headers B) r = - 1" using assms(1) by (rule indexOf_notin)
  then show ?thesis
    using assms(2) by (auto simp: performVlookup_find getCell_minus_one split: option.splits)
qed

text \<open>
  C2, amended. The handler does not check that the names are headers. It reports the error
  and leaves the merged table as it was exactly when a table is not loaded or one of the three
  names is the empty string. Otherwise it reports no error and stores a merged table with the
  left headers followed by the return column and one row for each left row; when the return
  column is not a header of the right table, the added cell of every row is \<^verbatim>\<open>undefined\<close> or
  \<open>N/A\<close>.
\<close>

theorem vlookup_guard_only_checks_selection:
  "(tableA s = None \<or> tableB s = None \<or> lookupColumn s = [] \<or> matchColumn s = [] \<or> returnColumn s = []
      \<longrightarrow> error (handlePerformVlookup s) = Some notReadyMessage
          \<and> mergedData (handlePerformVlookup s) = mergedData s)
   \<and> (tableA s = Some a \<and> tableB s = Some b
        \<and> lookupColumn s \<noteq> [] \<and> matchColumn s \<noteq> [] \<and> returnColumn s \<noteq> []
      \<longrightarrow> error (handlePerformVlookup s) = None
          \<and> (\<exists>merged. mergedData (handlePerformVlookup s) = Some merged
                \<and> headers merged = headers (data a) @ [returnColumn s]
                \<and> length (rows merged) = length (rows (data a))
                \<and> (returnColumn s \<notin> set (headers (data b))
                     \<longrightarrow> (\<forall>row \<in> set (rows merged). last row = Undefined \<or> last row = Str ''N/A''))))"
proof (intro conjI impI)
  assume "tableA s = None \<or> tableB s = None \<or> lookupColumn s = [] \<or> matchColumn s = [] \<or> returnColumn s = []"
  then show "error (handlePerformVlookup s) = Some notReadyMessage"
    by (auto simp: handlePerformVlookup_def)
next
  assume "tableA s = None \<or> tableB s = None \<or> lookupColumn s = [] \<or> matchColumn s = [] \<or> returnColumn s = []"
  then show "mergedData (handlePerformVlookup s) = mergedData s"
    by (auto simp: handlePerformVlookup_def)
next
  assume "tableA s = Some a \<and> tableB s = Some b
        \<and> lookupColumn s \<noteq> [] \<and> matchColumn s \<noteq> [] \<and> returnColumn s \<noteq> []"
  then show "error (handlePerformVlookup s) = None"
    by (simp add: handlePerformVlookup_def Let_def)
next
  assume g: "tableA s = Some a \<and> tableB s = Some b
        \<and> lookupColumn s \<noteq> [] \<and> matchColumn s \<noteq> [] \<and> returnColumn s \<noteq> []"
  let ?m = "performVlookup (data a) (data b) (lookupColumn s) (matchColumn s) (returnColumn s)"
  have 1: "mergedData (handlePerformVlookup s) = Some ?m"
    using g by (simp add: handlePerformVlookup_def Let_def)
  have 2: "headers ?m = headers (data a) @ [returnColumn s]"
    by (simp add: performVlookup_find)
  have 3: "length (rows ?m) = length (rows (data a))"
    by (simp add: performVlookup_find)
  have 4: "returnColumn s \<notin> set (headers (data b))
             \<longrightarrow> (\<forall>row \<in> set (rows ?m). last row = Undefined \<or> last row = Str ''N/A'')"
    using absent_return_cells by blast
  from 1 2 3 4
  show "\<exists>merged. mergedData (handlePerformVlookup s) = Some merged
                \<and> headers merged = headers (data a) @ [returnColumn s]
                \<and> length (rows merged) = length (rows (data a))
                \<and> (returnColumn s \<notin> set (headers (data b))
                     \<longrightarrow> (\<forall>row \<in> set (rows merged). last row = Undefined \<or> last row = Str ''N/A''))"
    by blast
qed

theorem vlookup_guard_only_checks_selection_witness:
  "returnColumn unselectedState = [] \<and>
   error (handlePerformVlookup unselectedState) = Some notReadyMessage \<and>
   mergedData (handlePerformVlookup unselectedState) = None \<and>
   tableA staleState = Some \<lparr>name = ''a.csv'', data = exampleA\<rparr> \<and>
   tableB staleState = Some \<lparr>name = ''b.csv'', data = exampleB\<rparr> \<and>
   lookupColumn staleState = ''ID'' \<and> matchColumn staleState = ''ID'' \<and>
   returnColumn staleState = ''Missing'' \<and> ''Missing'' \<notin> set (headers exampleB) \<and>
   error (handlePerformVlookup staleState) = None \<and>
   map last (rows (the (mergedData (handlePerformVlookup staleState)))) = [Undefined, Undefined, Str ''N/A'']"
  using vlookup_guard_only_checks_selection [of unselectedState]
    vlookup_guard_only_checks_selection [of staleState "\<lparr>name = ''a.csv'', data = exampleA\<rparr>"
      "\<lparr>name = ''b.csv'', data = exampleB\<rparr>"]
  by (simp add: handlePerformVlookup_def unselectedState_def staleState_def performVlookup_find
      exampleA_def exampleB_def indexOf_def getCell_def)

section \<open>Row widths\<close>

declare padRow.simps [simp del]

lemma padRow_eq: "padRow n row = row @ replicate (n - length row) []"
proof (induction n row rule: padRow.induct)
  case (1 n row)
  show ?case
  proof (cases "length row < n")
    case True
    then have "padRow n row = padRow n (row @ [[]])"
      by (subst padRow.simps) simp
    also have "\<dots> = (row @ [[]]) @ replicate (n - length (row @ [[]])) []"
      using 1 True by simp
    also have "\<dots> = row @ replicate (n - length row) []"
      using True by (simp add: Suc_diff_Suc flip: replicate_Suc)
    finally show ?thesis .
  next
    case False
    then show ?thesis by (subst padRow.simps) simp
  qed
qed

lemma sanitizeRow_eq: "sanitizeRow n row = take n row @ replicate (n - length row) []"
  by (simp add: sanitizeRow_def padRow_eq)

lemma length_sanitizeRow: "length (sanitizeRow n row) = n"
  by (simp add: sanitizeRow_eq)

lemma sanitizeExcelRow_snoc:
  "sanitizeExcelRow n (row @ [c]) =
     (if length row < n then (sanitizeExcelRow n row)[length row := cellString c]
      else sanitizeExcelRow n row)"
  by (simp add: sanitizeExcelRow_def cellString_def)

lemma sanitizeExcelRow_eq:
  "sanitizeExcelRow n row = map cellString (take n row) @ replicate (n - length row) []"
proof (induction row rule: rev_induct)
  case Nil
  then show ?case by (simp add: sanitizeExcelRow_def)
next
  case (snoc c row)
  show ?case
  proof (cases "length row < n")
    case True
    then obtain k where k: "n - length row = Suc k" by (cases "n - length row") auto
    then have k': "n - Suc (length row) = k" by simp
    from True show ?thesis
      by (simp add: sanitizeExcelRow_snoc snoc.IH list_update_append k k')
  next
    case False
    then show ?thesis
      by (simp add: sanitizeExcelRow_snoc snoc.IH)
  qed
qed

lemma length_sanitizeExcelRow: "length (sanitizeExcelRow n row) = n"
  by (simp add: sanitizeExcelRow_eq)

lemma parseCsv_rectangular: "parseCsv csvText = Inr t \<Longrightarrow> rectangular t"
  by (auto simp: parseCsv_def Let_def rectangular_def list_all_iff length_sanitizeRow
      split: if_splits)

lemma parseExcel_rectangular: "snd (parseExcel file) = Inr t \<Longrightarrow> rectangular t"
  by (auto simp: parseExcel_def Let_def rectangular_def list_all_iff length_sanitizeExcelRow
      split: if_splits option.splits)

lemma performVlookup_rectangular: "rectangular A \<Longrightarrow> rectangular (performVlookup A B l m r)"
  by (auto simp: performVlookup_find rectangular_def list_all_iff)

lemma parseCsv_raggedCsv: "parseCsv raggedCsv = Inr raggedTable"
  by (simp add: parseCsv_def raggedCsv_def raggedTable_def flushLast_def nonEmptyRow_def
      trim_def isWhiteSpace_def sanitizeRow_eq)

lemma parseExcel_raggedFile: "snd (parseExcel raggedFile) = Inr raggedTable"
  by (simp add: parseExcel_def raggedFile_def raggedTable_def nonEmptyExcelRow_def
      trim_def isWhiteSpace_def sanitizeExcelRow_eq cellString_def headerString_def)

text \<open>
  C4. Every table that the CSV parser or the spreadsheet normalizer returns is rectangular:
  each row is as long as the header row. The merged table of the join is rectangular when the
  left table is (the right table plays no part in the row widths).
\<close>

theorem produced_tables_rectangular:
  "(parseCsv csvText = Inr t \<longrightarrow> rectangular t)
   \<and> (snd (parseExcel file) = Inr t' \<longrightarrow> rectangular t')
   \<and> (rectangular A \<longrightarrow> rectangular (performVlookup A B l m r))"
  using parseCsv_rectangular parseExcel_rectangular performVlookup_rectangular by blast

theorem produced_tables_rectangular_witness:
  "parseCsv raggedCsv = Inr raggedTable \<and> snd (parseExcel raggedFile) = Inr raggedTable
   \<and> rectangular raggedTable \<and> rectangular exampleA
   \<and> rectangular (performVlookup exampleA exampleB ''ID'' ''ID'' ''Score'')"
  using produced_tables_rectangular [of raggedCsv raggedTable raggedFile raggedTable exampleA
      exampleB "''ID''" "''ID''" "''Score''"]
    parseCsv_raggedCsv parseExcel_raggedFile
  by (simp add: rectangular_def exampleA_def)



section \<open>Quoted fields\<close>

text \<open>
  C8. In a quoted field two double quotes in a row add one double quote to the field and the
  field stays open; a double quote that is not followed by another closes the field. The
  quoted field \<^verbatim>\<open>"He said ""hi"""\<close> parses to the one cell \<^verbatim>\<open>He said "hi"\<close>, as a header and
  as a data cell.
\<close>

theorem quoted_field_quotes:
  "scanCsv prev rws currentRow currentField True (DQUOTE # DQUOTE # cs)
     = scanCsv (Some DQUOTE) rws currentRow (currentField @ [DQUOTE]) True cs
   \<and> (cs = [] \<or> hd cs \<noteq> DQUOTE \<longrightarrow>
        scanCsv prev rws currentRow currentField True (DQUOTE # cs)
          = scanCsv (Some DQUOTE) rws currentRow currentField False cs)
   \<and> parseCsv quotedExample = Inr \<lparr>headers = [quotedValue], rows = []\<rparr>
   \<and> parseCsv (''q'' @ [LF] @ quotedExample) = Inr \<lparr>headers = [''q''], rows = [[Str quotedValue]]\<rparr>"
proof (intro conjI)
  show "scanCsv prev rws currentRow currentField True (DQUOTE # DQUOTE # cs)
     = scanCsv (Some DQUOTE) rws currentRow (currentField @ [DQUOTE]) True cs"
    by simp
  show "cs = [] \<or> hd cs \<noteq> DQUOTE \<longrightarrow>
        scanCsv prev rws currentRow currentField True (DQUOTE # cs)
          = scanCsv (Some DQUOTE) rws currentRow currentField False cs"
    by auto
  show "parseCsv quotedExample = Inr \<lparr>headers = [quotedValue], rows = []\<rparr>"
    by (simp add: parseCsv_def quotedExample_def quotedValue_def flushLast_def nonEmptyRow_def
        trim_def isWhiteSpace_def)
  show "parseCsv (''q'' @ [LF] @ quotedExample) = Inr \<lparr>headers = [''q''], rows = [[Str quotedValue]]\<rparr>"
    by (simp add: parseCsv_def quotedExample_def quotedValue_def flushLast_def nonEmptyRow_def
        trim_def isWhiteSpace_def sanitizeRow_def padRow.simps)
qed

theorem quoted_field_quotes_witness:
  "scanCsv None [] [] ''x'' True [DQUOTE, COMMA, CHR ''y''] = ([], [''x''], ''y'')
   \<and> scanCsv None [] [] ''x'' True [DQUOTE] = ([], [], ''x'')"
  using quoted_field_quotes [of None "[]" "[]" "''x''" "[COMMA, CHR ''y'']"]
    quoted_field_quotes [of None "[]" "[]" "''x''" "[]"]
  by simp

section \<open>Blank input\<close>

lemma whitespace_not_special: "isWhiteSpace c \<Longrightarrow> c \<noteq> DQUOTE \<and> c \<noteq> COMMA"
  by (auto simp: isWhiteSpace_def)

lemma trim_whitespace: "list_all isWhiteSpace s \<Longrightarrow> trim s = []"
proof -
  assume "list_all isWhiteSpace s"
  then have d: "dropWhile isWhiteSpace s = []"
    by (induction s) auto
  show ?thesis
    unfolding trim_def d by simp
qed

lemma blank_row_dropped: "list_all isWhiteSpace field \<Longrightarrow> \<not> nonEmptyRow [field]"
  by (simp add: nonEmptyRow_def trim_whitespace)

lemma scanCsv_whitespace:
  "list_all isWhiteSpace cs \<Longrightarrow> list_all isWhiteSpace field \<Longrightarrow> filter nonEmptyRow rws = [] \<Longrightarrow>
   \<exists>rws' field'. scanCsv prev rws [] field False cs = (rws', [], field')
      \<and> list_all isWhiteSpace field' \<and> filter nonEmptyRow rws' = []"
proof (induction cs arbitrary: prev rws field)
  case Nil
  then show ?case by simp
next
  case (Cons c cs)
  from Cons.prems have c: "isWhiteSpace c" and cs: "list_all isWhiteSpace cs" by simp_all
  from c have ns: "c \<noteq> DQUOTE" "c \<noteq> COMMA" using whitespace_not_special by blast+
  show ?case
  proof (cases "(c = LF \<or> c = CR) \<and> prev \<noteq> None \<and> prev \<noteq> Some CR \<and> prev \<noteq> Some LF")
    case True
    have "filter nonEmptyRow (rws @ [[field]]) = []"
      using Cons.prems(2,3) by (simp add: blank_row_dropped)
    from Cons.IH [OF cs _ this, of "[]" "Some c"] True ns show ?thesis
      by simp
  next
    case False
    show ?thesis
    proof (cases "c = LF \<or> c = CR")
      case True
      with False Cons.IH [OF cs Cons.prems(2) Cons.prems(3), of "Some c"] ns show ?thesis
        by auto
    next
      case nl: False
      have "list_all isWhiteSpace (field @ [c])" using c Cons.prems(2) by simp
      from Cons.IH [OF cs this Cons.prems(3), of "Some c"] ns nl show ?thesis
        by simp
    qed
  qed
qed

text \<open>
  C9. On the empty string and on every string of white space only, the parser returns the
  empty table; it does not fail. It is the paste handler, after the parser, that rejects the
  empty table.
\<close>

theorem parseCsv_whitespace_only:
  assumes "list_all isWhiteSpace csvText"
  shows "parseCsv csvText = Inr \<lparr>headers = [], rows = []\<rparr>
    \<and> handlePastedData csvText = Inl emptyPasteFailure"
proof -
  from scanCsv_whitespace [OF assms, of "[]" "[]" None]
  obtain rws' field' where r: "scanCsv None [] [] [] False csvText = (rws', [], field')"
    "list_all isWhiteSpace field'" "filter nonEmptyRow rws' = []"
    by auto
  then have "filter nonEmptyRow (flushLast (scanCsv None [] [] [] False csvText)) = []"
    by (simp add: flushLast_def blank_row_dropped)
  then have "parseCsv csvText = Inr \<lparr>headers = [], rows = []\<rparr>"
    by (simp add: parseCsv_def)
  then show ?thesis
    by (simp add: handlePastedData_def)
qed

theorem parseCsv_whitespace_only_witness:
  "list_all isWhiteSpace [] \<and> parseCsv [] = Inr \<lparr>headers = [], rows = []\<rparr>
   \<and> list_all isWhiteSpace [CHR 0x20, CHR 0x09, LF, LF, CHR 0x20, CR, LF, CHR 0xA0]
   \<and> parseCsv [CHR 0x20, CHR 0x09, LF, LF, CHR 0x20, CR, LF, CHR 0xA0] = Inr \<lparr>headers = [], rows = []\<rparr>
   \<and> handlePastedData [CHR 0x20, CHR 0x09, LF, LF, CHR 0x20, CR, LF, CHR 0xA0] = Inl emptyPasteFailure"
proof -
  have a: "list_all isWhiteSpace []" by simp
  have b: "list_all isWhiteSpace [CHR 0x20, CHR 0x09, LF, LF, CHR 0x20, CR, LF, CHR 0xA0]"
    by (simp add: isWhiteSpace_def)
  show ?thesis
    using a b parseCsv_whitespace_only [OF a] parseCsv_whitespace_only [OF b] by simp
qed

section \<open>The dispatcher\<close>

lemma toLowerCase_append: "toLowerCase (a @ b) = toLowerCase a @ toLowerCase b"
  by (simp add: toLowerCase_def)

lemma endsWith_iff: "endsWith s suffix \<longleftrightarrow> (\<exists>a. s = a @ suffix)"
proof
  assume "endsWith s suffix"
  then have "s = take (length s - length suffix) s @ suffix"
    by (metis append_take_drop_id endsWith_def)
  then show "\<exists>a. s = a @ suffix" ..
next
  assume "\<exists>a. s = a @ suffix"
  then show "endsWith s suffix"
    by (auto simp: endsWith_def)
qed

lemma endsWith_append: "endsWith (a @ s) s"
  by (auto simp: endsWith_iff)

lemma endsWith_last: "endsWith s suffix \<Longrightarrow> suffix \<noteq> [] \<Longrightarrow> last s = last suffix"
  by (auto simp: endsWith_iff)

lemma not_csv:
  "last s \<noteq> CHR ''v'' \<Longrightarrow> \<not> endsWith s ''.csv''"
  using endsWith_last [of s "''.csv''"] by auto

lemma not_xlsx:
  "last s \<noteq> CHR ''x'' \<Longrightarrow> \<not> endsWith s ''.xlsx''"
  using endsWith_last [of s "''.xlsx''"] by auto

lemma not_xls:
  "last s \<noteq> CHR ''s'' \<Longrightarrow> \<not> endsWith s ''.xls''"
  using endsWith_last [of s "''.xls''"] by auto

lemma lower_txt: "toLowerCase ''.txt'' = ''.txt''"
  by (simp add: toLowerCase_def toLowerChar_def)

text \<open>
  C10. A file whose name ends in \<open>.csv\<close>, in any mix of upper and lower case, is read as text
  and given to the CSV parser; one whose name ends in \<open>.xlsx\<close> or \<open>.xls\<close>, in any case, is given
  to the spreadsheet normalizer. Every other file, such as one whose name ends in \<open>.txt\<close>, fails
  with the unsupported-format error, and nothing of its content is read.
\<close>

theorem parseFile_dispatch:
  "(toLowerCase ext = ''.csv'' \<longrightarrow>
      parseFile (f\<lparr>file_name := base @ ext\<rparr>) = ([ReadText], parseCsv (file_text f)))
   \<and> (toLowerCase ext = ''.xlsx'' \<or> toLowerCase ext = ''.xls'' \<longrightarrow>
      parseFile (f\<lparr>file_name := base @ ext\<rparr>) = parseExcel (f\<lparr>file_name := base @ ext\<rparr>))
   \<and> (\<not> endsWith (toLowerCase (file_name f)) ''.csv''
      \<and> \<not> endsWith (toLowerCase (file_name f)) ''.xlsx''
      \<and> \<not> endsWith (toLowerCase (file_name f)) ''.xls'' \<longrightarrow>
      parseFile f = ([], Inl unsupportedFormat))
   \<and> parseFile (f\<lparr>file_name := base @ ''.txt''\<rparr>) = ([], Inl unsupportedFormat)"
proof (intro conjI impI)
  assume "toLowerCase ext = ''.csv''"
  then have "endsWith (toLowerCase (base @ ext)) ''.csv''"
    by (simp add: toLowerCase_append endsWith_append)
  then show "parseFile (f\<lparr>file_name := base @ ext\<rparr>) = ([ReadText], parseCsv (file_text f))"
    by (simp add: parseFile_def)
next
  assume e: "toLowerCase ext = ''.xlsx'' \<or> toLowerCase ext = ''.xls''"
  then have "endsWith (toLowerCase (base @ ext)) ''.xlsx'' \<or> endsWith (toLowerCase (base @ ext)) ''.xls''"
    by (auto simp: toLowerCase_append endsWith_append)
  moreover from e have "\<not> endsWith (toLowerCase (base @ ext)) ''.csv''"
    by (auto simp: toLowerCase_append intro!: not_csv)
  ultimately show "parseFile (f\<lparr>file_name := base @ ext\<rparr>) = parseExcel (f\<lparr>file_name := base @ ext\<rparr>)"
    by (simp add: parseFile_def)
next
  assume "\<not> endsWith (toLowerCase (file_name f)) ''.csv''
      \<and> \<not> endsWith (toLowerCase (file_name f)) ''.xlsx''
      \<and> \<not> endsWith (toLowerCase (file_name f)) ''.xls''"
  then show "parseFile f = ([], Inl unsupportedFormat)"
    by (simp add: parseFile_def)
next
  have "last (toLowerCase (base @ ''.txt'')) = CHR ''t''"
    by (simp add: toLowerCase_append lower_txt)
  then have "\<not> endsWith (toLowerCase (base @ ''.txt'')) ''.csv''"
    "\<not> endsWith (toLowerCase (base @ ''.txt'')) ''.xlsx''"
    "\<not> endsWith (toLowerCase (base @ ''.txt'')) ''.xls''"
    by (simp_all add: not_csv not_xlsx not_xls)
  then show "parseFile (f\<lparr>file_name := base @ ''.txt''\<rparr>) = ([], Inl unsupportedFormat)"
    by (simp add: parseFile_def)
qed

theorem parseFile_dispatch_witness:
  "toLowerCase ''.CSV'' = ''.csv''
   \<and> parseFile upperCsvFile = ([ReadText], Inr \<lparr>headers = [''a'', ''b''], rows = [[Str ''1'', Str ''2'']]\<rparr>)
   \<and> toLowerCase ''.XLSX'' = ''.xlsx''
   \<and> parseFile raggedFile = ([ReadArrayBuffer], Inr raggedTable)
   \<and> toLowerCase ''.XlS'' = ''.xls''
   \<and> parseFile (raggedFile\<lparr>file_name := ''book.XlS''\<rparr>) = ([ReadArrayBuffer], Inr raggedTable)
   \<and> \<not> endsWith (toLowerCase (file_name pdfFile)) ''.csv''
   \<and> \<not> endsWith (toLowerCase (file_name pdfFile)) ''.xlsx''
   \<and> \<not> endsWith (toLowerCase (file_name pdfFile)) ''.xls''
   \<and> parseFile pdfFile = ([], Inl unsupportedFormat)"
proof -
  have l1: "toLowerCase ''.CSV'' = ''.csv''" "toLowerCase ''.XLSX'' = ''.xlsx''"
    "toLowerCase ''.XlS'' = ''.xls''"
    by code_simp+
  have n: "\<not> endsWith (toLowerCase (file_name pdfFile)) ''.csv''
      \<and> \<not> endsWith (toLowerCase (file_name pdfFile)) ''.xlsx''
      \<and> \<not> endsWith (toLowerCase (file_name pdfFile)) ''.xls''"
    by code_simp
  have c: "parseCsv (''a,b'' @ [LF] @ ''1,2'') = Inr \<lparr>headers = [''a'', ''b''], rows = [[Str ''1'', Str ''2'']]\<rparr>"
    by (simp add: parseCsv_def flushLast_def nonEmptyRow_def sanitizeRow_def padRow.simps)
  have x: "parseExcel raggedFile = ([ReadArrayBuffer], Inr raggedTable)"
    "parseExcel (raggedFile\<lparr>file_name := ''book.XlS''\<rparr>) = ([ReadArrayBuffer], Inr raggedTable)"
    by (simp_all add: parseExcel_def raggedFile_def raggedTable_def nonEmptyExcelRow_def
      trim_def isWhiteSpace_def sanitizeExcelRow_eq cellString_def headerString_def)
  show ?thesis
    using l1 n c x
      parseFile_dispatch [where ext = "''.CSV''" and f = upperCsvFile and base = "''Data''"]
      parseFile_dispatch [where ext = "''.XLSX''" and f = raggedFile and base = "''book''"]
      parseFile_dispatch [where ext = "''.XlS''" and f = raggedFile and base = "''book''"]
      parseFile_dispatch [where ext = "[]" and f = pdfFile and base = "[]"]
    by (simp add: upperCsvFile_def raggedFile_def)
qed

section \<open>Serializing and parsing again\<close>

lemma scanCsv_plain:
  "\<not> needsQuoting s \<Longrightarrow>
   scanCsv prev rws row field False (s @ rest)
     = scanCsv (if s = [] then prev else Some (last s)) rws row (field @ s) False rest"
proof (induction s arbitrary: prev field)
  case Nil
  then show ?case by simp
next
  case (Cons c s)
  from Cons.prems have c: "c \<noteq> DQUOTE" "c \<noteq> COMMA" "c \<noteq> LF" "c \<noteq> CR" and s: "\<not> needsQuoting s"
    by (simp_all add: needsQuoting_def)
  have "scanCsv prev rws row field False ((c # s) @ rest)
          = scanCsv (Some c) rws row (field @ [c]) False (s @ rest)"
    using c by simp
  also have "\<dots> = scanCsv (if s = [] then Some c else Some (last s)) rws row ((field @ [c]) @ s) False rest"
    by (rule Cons.IH [OF s])
  finally show ?case by simp
qed

lemma scanCsv_quoted:
  "rest = [] \<or> hd rest \<noteq> DQUOTE \<Longrightarrow>
   scanCsv prev rws row field True (doubleQuotes s @ DQUOTE # rest)
     = scanCsv (Some DQUOTE) rws row (field @ s) False rest"
proof (induction s arbitrary: prev field)
  case Nil
  then show ?case by (auto simp: doubleQuotes_def)
next
  case (Cons c s)
  show ?case
  proof (cases "c = DQUOTE")
    case True
    have "scanCsv prev rws row field True (doubleQuotes (c # s) @ DQUOTE # rest)
            = scanCsv (Some DQUOTE) rws row (field @ [DQUOTE]) True (doubleQuotes s @ DQUOTE # rest)"
      using True by (simp add: doubleQuotes_def)
    also have "\<dots> = scanCsv (Some DQUOTE) rws row ((field @ [DQUOTE]) @ s) False rest"
      by (rule Cons.IH [OF Cons.prems])
    finally show ?thesis using True by simp
  next
    case False
    have "scanCsv prev rws row field True (doubleQuotes (c # s) @ DQUOTE # rest)
            = scanCsv (Some c) rws row (field @ [c]) True (doubleQuotes s @ DQUOTE # rest)"
      using False by (simp add: doubleQuotes_def)
    also have "\<dots> = scanCsv (Some DQUOTE) rws row ((field @ [c]) @ s) False rest"
      by (rule Cons.IH [OF Cons.prems])
    finally show ?thesis by simp
  qed
qed

lemma last_not_break: "\<not> needsQuoting s \<Longrightarrow> s \<noteq> [] \<Longrightarrow> breakAllowed (Some (last s))"
proof -
  assume a: "\<not> needsQuoting s" "s \<noteq> []"
  then have "last s \<in> set s" by simp
  with a(1) have "last s \<noteq> LF \<and> last s \<noteq> CR"
    by (auto simp: needsQuoting_def list_ex_iff)
  then show ?thesis by (simp add: breakAllowed_def)
qed

lemma scanCsv_field:
  assumes "rest = [] \<or> hd rest \<noteq> DQUOTE"
  shows "\<exists>prev'. scanCsv prev rws row field False (escapeField (Str s) @ rest)
            = scanCsv prev' rws row (field @ s) False rest
          \<and> (s = [] \<longrightarrow> prev' = prev) \<and> (s \<noteq> [] \<longrightarrow> breakAllowed prev')"
proof (cases "needsQuoting s")
  case True
  have "scanCsv prev rws row field False (escapeField (Str s) @ rest)
          = scanCsv (Some DQUOTE) rws row field True (doubleQuotes s @ DQUOTE # rest)"
    using True by (simp add: escapeField_def)
  also have "\<dots> = scanCsv (Some DQUOTE) rws row (field @ s) False rest"
    by (rule scanCsv_quoted [OF assms])
  finally have "scanCsv prev rws row field False (escapeField (Str s) @ rest)
          = scanCsv (Some DQUOTE) rws row (field @ s) False rest" .
  moreover from True have "s \<noteq> []" by (auto simp: needsQuoting_def)
  moreover have "breakAllowed (Some DQUOTE)" by (simp add: breakAllowed_def)
  ultimately show ?thesis by blast
next
  case False
  then have "scanCsv prev rws row field False (escapeField (Str s) @ rest)
          = scanCsv (if s = [] then prev else Some (last s)) rws row (field @ s) False rest"
    by (simp add: escapeField_def scanCsv_plain)
  moreover have "s \<noteq> [] \<longrightarrow> breakAllowed (if s = [] then prev else Some (last s))"
    using False by (simp add: last_not_break)
  ultimately show ?thesis by auto
qed

lemma csvLine_Cons2: "csvLine (f # g # gs) = escapeField (Str f) @ COMMA # csvLine (g # gs)"
  by (simp add: csvLine_def)

lemma scanCsv_line:
  assumes "rest = [] \<or> hd rest \<noteq> DQUOTE"
  shows "\<exists>prev'. scanCsv prev rws row [] False (csvLine (f # fs) @ rest)
            = scanCsv prev' rws (row @ butlast (f # fs)) (last (f # fs)) False rest
          \<and> (f # fs = [[]] \<longrightarrow> prev' = prev) \<and> (f # fs \<noteq> [[]] \<longrightarrow> breakAllowed prev')"
proof (induction fs arbitrary: f row prev)
  case Nil
  from scanCsv_field [OF assms, of prev rws row "[]" f]
  show ?case by (auto simp: csvLine_def)
next
  case (Cons g gs)
  have r: "COMMA # csvLine (g # gs) @ rest = [] \<or> hd (COMMA # csvLine (g # gs) @ rest) \<noteq> DQUOTE"
    by simp
  from scanCsv_field [OF r, of prev rws row "[]" f]
  obtain p1 where p1: "scanCsv prev rws row [] False (escapeField (Str f) @ COMMA # csvLine (g # gs) @ rest)
      = scanCsv p1 rws row f False (COMMA # csvLine (g # gs) @ rest)"
    by auto
  from Cons.IH [of "Some COMMA" "row @ [f]" g]
  obtain p2 where p2: "scanCsv (Some COMMA) rws (row @ [f]) [] False (csvLine (g # gs) @ rest)
      = scanCsv p2 rws ((row @ [f]) @ butlast (g # gs)) (last (g # gs)) False rest"
    and b: "g # gs = [[]] \<longrightarrow> p2 = Some COMMA" "g # gs \<noteq> [[]] \<longrightarrow> breakAllowed p2"
    by blast
  have "scanCsv prev rws row [] False (csvLine (f # g # gs) @ rest)
      = scanCsv p1 rws row f False (COMMA # csvLine (g # gs) @ rest)"
    using p1 by (simp add: csvLine_Cons2)
  also have "\<dots> = scanCsv (Some COMMA) rws (row @ [f]) [] False (csvLine (g # gs) @ rest)"
    by simp
  also note p2
  finally have "scanCsv prev rws row [] False (csvLine (f # g # gs) @ rest)
      = scanCsv p2 rws (row @ butlast (f # g # gs)) (last (f # g # gs)) False rest"
    by simp
  moreover have "breakAllowed p2"
    using b by (cases "g # gs = [[]]") (simp_all add: breakAllowed_def)
  ultimately show ?case by auto
qed

lemma scanCsv_lines:
  assumes "\<forall>r \<in> set Rs. r \<noteq> [] \<and> r \<noteq> [[]]"
  shows "flushLast (scanCsv prev rws [] [] False (join_js [LF] (map csvLine Rs))) = rws @ Rs"
  using assms
proof (induction Rs arbitrary: prev rws)
  case Nil
  then show ?case by (simp add: flushLast_def)
next
  case (Cons r Rs)
  from Cons.prems obtain f fs where r: "r = f # fs" and ne: "f # fs \<noteq> [[]]"
    by (cases r) auto
  have bl: "butlast (f # fs) @ [last (f # fs)] = f # fs"
    by (rule append_butlast_last_id) simp
  show ?case
  proof (cases Rs)
    case Nil
    from scanCsv_line [of "[]" prev rws "[]" f fs]
    obtain p where "scanCsv prev rws [] [] False (csvLine (f # fs))
        = scanCsv p rws (butlast (f # fs)) (last (f # fs)) False []"
      by auto
    then have "flushLast (scanCsv prev rws [] [] False (csvLine (f # fs)))
        = flushLast (rws, butlast (f # fs), last (f # fs))"
      by simp
    also have "\<dots> = rws @ [butlast (f # fs) @ [last (f # fs)]]"
      using ne by (cases fs) (auto simp: flushLast_def)
    also have "\<dots> = rws @ [f # fs]"
      by (simp only: bl)
    finally show ?thesis using Nil r by simp
  next
    case (Cons r2 Rs2)
    let ?tail = "join_js [LF] (map csvLine Rs)"
    have t: "join_js [LF] (map csvLine (r # Rs)) = csvLine (f # fs) @ LF # ?tail"
      using Cons r by simp
    have "LF # ?tail = [] \<or> hd (LF # ?tail) \<noteq> DQUOTE" by simp
    from scanCsv_line [OF this, of prev rws "[]" f fs] ne
    obtain p where p: "scanCsv prev rws [] [] False (csvLine (f # fs) @ LF # ?tail)
        = scanCsv p rws (butlast (f # fs)) (last (f # fs)) False (LF # ?tail)"
      and bp: "breakAllowed p"
      by auto
    have "scanCsv p rws (butlast (f # fs)) (last (f # fs)) False (LF # ?tail)
        = scanCsv (Some LF) (rws @ [butlast (f # fs) @ [last (f # fs)]]) [] [] False ?tail"
      using bp by (simp add: breakAllowed_def)
    also note bl
    finally have "scanCsv prev rws [] [] False (join_js [LF] (map csvLine (r # Rs)))
        = scanCsv (Some LF) (rws @ [r]) [] [] False ?tail"
      using t p r by simp
    moreover have "flushLast (scanCsv (Some LF) (rws @ [r]) [] [] False ?tail) = (rws @ [r]) @ Rs"
      using Cons.IH [of "Some LF" "rws @ [r]"] Cons.prems by simp
    ultimately show ?thesis by simp
  qed
qed

lemma isStr_Str: "isStr c \<Longrightarrow> Str (String_of c) = c"
  by (cases c) (simp_all add: isStr_def)

lemma map_Str_comp: "list_all isStr row \<Longrightarrow> map (Str \<circ> String_of) row = row"
  by (induction row) (simp_all add: isStr_Str)

lemma restore_rows: "list_all (list_all isStr) rws \<Longrightarrow> map (map Str) (map (map String_of) rws) = rws"
  by (induction rws) (simp_all add: map_Str_comp)

lemma csvLine_cells: "list_all isStr row \<Longrightarrow> join_js [COMMA] (map escapeField row) = csvLine (map String_of row)"
proof -
  assume "list_all isStr row"
  then have "map escapeField row = map (\<lambda>s. escapeField (Str s)) (map String_of row)"
    by (induction row) (simp_all add: isStr_Str)
  then show ?thesis by (simp only: csvLine_def)
qed

lemma generateCsv_lines:
  assumes "allStrings t"
  shows "generateCsv t = join_js [LF] (map csvLine (headers t # map (map String_of) (rows t)))"
proof -
  have "map (\<lambda>row. join_js [COMMA] (map escapeField row)) (rows t)
          = map (\<lambda>row. csvLine (map String_of row)) (rows t)"
    using assms by (intro map_cong) (simp_all add: allStrings_def list_all_iff csvLine_cells)
  then have "map (\<lambda>row. join_js [COMMA] (map escapeField row)) (rows t)
          = map csvLine (map (map String_of) (rows t))"
    by (simp only: map_map comp_def)
  moreover have "join_js [COMMA] (map (\<lambda>h. escapeField (Str h)) (headers t)) = csvLine (headers t)"
    by (simp only: csvLine_def)
  ultimately show ?thesis
    by (simp only: generateCsv_def Let_def list.map)
qed

lemma trim_Nil: "trim [] = []"
  by (simp add: trim_def)

lemma sanitizeRow_id: "length row = n \<Longrightarrow> sanitizeRow n row = row"
  by (simp add: sanitizeRow_def padRow.simps)

text \<open>
  C3 as stated does not hold: a table with one column and an empty cell is written as the
  header line followed by an empty line, and the parser returns the header with no row.
\<close>

theorem csv_round_trip_counterexample:
  "rectangular oneColumn \<and> allStrings oneColumn
   \<and> generateCsv oneColumn = [CHR ''a'', LF]
   \<and> parseCsv (generateCsv oneColumn) = Inr \<lparr>headers = [''a''], rows = []\<rparr>
   \<and> parseCsv (generateCsv oneColumn) \<noteq> Inr oneColumn"
  by (simp add: oneColumn_def rectangular_def allStrings_def isStr_def generateCsv_def
      escapeField_def needsQuoting_def parseCsv_def flushLast_def nonEmptyRow_def trim_def
      isWhiteSpace_def)

text \<open>
  C3, amended. Parsing the serialized form gives the table back when the table is
  rectangular, all its cells are strings, and it is the empty table, or has at least two
  columns, or has one column whose header and cells each hold a character that is not white
  space. Cells may hold commas, double quotes and line breaks, and with two or more columns
  they may be empty.
\<close>

theorem csv_round_trip:
  assumes rect: "rectangular t" and strs: "allStrings t"
    and shape: "(headers t = [] \<and> rows t = []) \<or> 2 \<le> length (headers t)
      \<or> (length (headers t) = 1 \<and> nonBlank (hd (headers t))
          \<and> list_all (\<lambda>row. nonBlank (String_of (hd row))) (rows t))"
  shows "parseCsv (generateCsv t) = Inr t"
proof (cases "headers t = [] \<and> rows t = []")
  case True
  then have "generateCsv t = []"
    by (simp add: generateCsv_def)
  moreover have "t = \<lparr>headers = [], rows = []\<rparr>"
    using True by (cases t) simp
  ultimately show ?thesis
    by (simp add: parseCsv_def flushLast_def)
next
  case False
  let ?n = "length (headers t)"
  let ?R = "headers t # map (map String_of) (rows t)"
  have len: "\<forall>r \<in> set ?R. length r = ?n"
    using rect by (auto simp: rectangular_def list_all_iff)
  have shape': "2 \<le> ?n \<or> (?n = 1 \<and> (\<forall>r \<in> set ?R. nonBlank (hd r)))"
  proof -
    from shape False consider "2 \<le> ?n"
      | "?n = 1" "nonBlank (hd (headers t))" "list_all (\<lambda>row. nonBlank (String_of (hd row))) (rows t)"
      by blast
    then show ?thesis
    proof cases
      case 1
      then show ?thesis by simp
    next
      case 2
      have "\<forall>row \<in> set (rows t). hd (map String_of row) = String_of (hd row)"
      proof
        fix row assume "row \<in> set (rows t)"
        with len 2(1) have "length row = 1" by simp
        then show "hd (map String_of row) = String_of (hd row)"
          by (cases row) simp_all
      qed
      with 2 show ?thesis
        by (auto simp: list_all_iff)
    qed
  qed
  have keep: "\<forall>r \<in> set ?R. nonEmptyRow r"
  proof
    fix r assume r: "r \<in> set ?R"
    with len have l: "length r = ?n" by blast
    from shape' show "nonEmptyRow r"
    proof
      assume "2 \<le> ?n"
      with l show ?thesis by (simp add: nonEmptyRow_def)
    next
      assume a: "?n = 1 \<and> (\<forall>r \<in> set ?R. nonBlank (hd r))"
      with r have "nonBlank (hd r)" by blast
      moreover from a l have "length r = 1" by simp
      ultimately show ?thesis
        by (cases r) (simp_all add: nonEmptyRow_def nonBlank_def)
    qed
  qed
  have "\<forall>r \<in> set ?R. r \<noteq> [] \<and> r \<noteq> [[]]"
  proof
    fix r assume "r \<in> set ?R"
    with keep have "nonEmptyRow r" by blast
    then show "r \<noteq> [] \<and> r \<noteq> [[]]"
      by (auto simp: nonEmptyRow_def trim_Nil)
  qed
  then have "flushLast (scanCsv None [] [] [] False (join_js [LF] (map csvLine ?R))) = [] @ ?R"
    by (rule scanCsv_lines)
  then have scan: "flushLast (scanCsv None [] [] [] False (generateCsv t)) = ?R"
    using strs by (simp add: generateCsv_lines)
  have filt: "filter nonEmptyRow ?R = ?R"
    using keep by (simp only: filter_True)
  have san: "map (sanitizeRow ?n) (map (map String_of) (rows t)) = map (map String_of) (rows t)"
    using len by (simp add: sanitizeRow_id)
  have restore: "map (map Str) (map (map String_of) (rows t)) = rows t"
    using strs unfolding allStrings_def by (rule restore_rows)
  have "parseCsv (generateCsv t)
      = Inr \<lparr>headers = hd ?R, rows = map (map Str) (map (sanitizeRow (length (hd ?R))) (tl ?R))\<rparr>"
    unfolding parseCsv_def Let_def scan filt by simp
  also have "\<dots> = Inr \<lparr>headers = headers t, rows = rows t\<rparr>"
    by (simp only: list.sel san restore)
  finally have "parseCsv (generateCsv t) = Inr \<lparr>headers = headers t, rows = rows t\<rparr>" .
  moreover have "t = \<lparr>headers = headers t, rows = rows t\<rparr>"
    by (cases t) simp
  ultimately show ?thesis by simp
qed

theorem csv_round_trip_witness:
  "rectangular quotedTable \<and> allStrings quotedTable \<and> 2 \<le> length (headers quotedTable)
   \<and> parseCsv (generateCsv quotedTable) = Inr quotedTable
   \<and> rectangular namesTable \<and> allStrings namesTable \<and> length (headers namesTable) = 1
   \<and> nonBlank (hd (headers namesTable))
   \<and> list_all (\<lambda>row. nonBlank (String_of (hd row))) (rows namesTable)
   \<and> parseCsv (generateCsv namesTable) = Inr namesTable"
proof -
  have q: "rectangular quotedTable" "allStrings quotedTable" "2 \<le> length (headers quotedTable)"
    by (simp_all add: quotedTable_def rectangular_def allStrings_def isStr_def)
  have n: "rectangular namesTable" "allStrings namesTable" "length (headers namesTable) = 1"
    "nonBlank (hd (headers namesTable))"
    "list_all (\<lambda>row. nonBlank (String_of (hd row))) (rows namesTable)"
    by (simp_all add: namesTable_def rectangular_def allStrings_def isStr_def nonBlank_def
        trim_def isWhiteSpace_def)
  from q have "parseCsv (generateCsv quotedTable) = Inr quotedTable"
    by (intro csv_round_trip) simp_all
  moreover from n have "parseCsv (generateCsv namesTable) = Inr namesTable"
    by (intro csv_round_trip) simp_all
  ultimately show ?thesis
    using q n by simp
qed

end
